theory Spec2Isabelle
  imports Main "HOL-Library.Sublist"
begin

section \<open>detect\_ssid.cpp: the data model\<close>

text \<open>
  The program has three functions and a \<open>main\<close>. Everything outside the process is a
  parameter of the model:
  \<^item> the file system, a map from a file name to what an \<open>ifstream\<close> gets from it:
    \<open>None\<close> when the file cannot be opened, \<open>Contents\<close> with the text when it is
    read to its end, \<open>Read_error\<close> when it opens and the read fails (a directory, a
    failing device);
  \<^item> the result of \<open>getifaddrs\<close>, the linked list of interface addresses as a list,
    \<open>None\<close> when the call returns -1;
  \<^item> \<open>system\<close>, one behaviour for each call: from the command line and the file system
    to the status it returns and the file system it leaves;
  \<^item> \<open>ros::ok()\<close>, true once for each element of the list of \<open>system\<close> behaviours
    and false after the last.

  A \<open>const char*\<close> argument is the list of the characters before its terminating NUL.
  An exception that nothing catches is a \<open>fault\<close>: \<open>std::out_of_range\<close> thrown by
  \<open>substr\<close>, and \<open>std::ios_base::failure\<close> thrown by the stream buffer when a
  read fails under \<open>istreambuf_iterator\<close>. Offsets and lengths are natural numbers:
  a \<open>size_t\<close> cannot wrap on a string that fits in memory. The lines written to
  \<open>stderr\<close> and the ROS log are left out, and so are \<open>ros::init\<close>, \<open>spinOnce\<close>
  and the sleep between two cycles; \<open>publish\<close> appends its message to the list of
  published messages.
\<close>

datatype fault = Out_of_range | Ios_failure

datatype opened_file = Contents string | Read_error

type_synonym filesystem = "string \<rightharpoonup> opened_file"

type_synonym system_call = "string \<Rightarrow> filesystem \<Rightarrow> int \<times> filesystem"

datatype sa_family = AF_INET | AF_INET6 | AF_PACKET | AF_OTHER

record ifaddrs =
  ifa_name :: string
  ifa_addr :: "sa_family option"

record poll_state =
  fs :: filesystem
  phone_network_name :: string
  published :: "string list"

section \<open>Library operations the code calls\<close>

text \<open>
  \<open>std::string::find(const char*)\<close> from position 0: the lowest offset at which the
  argument occurs, \<open>npos\<close> (here \<open>None\<close>) when there is none. The empty string occurs
  at offset 0 of every string, the empty one included.
\<close>

fun string_find :: "string \<Rightarrow> string \<Rightarrow> nat option" where
  "string_find [] s = (if s = [] then Some 0 else None)"
| "string_find (c # cs) s =
     (if prefix s (c # cs) then Some 0 else map_option Suc (string_find cs s))"

text \<open>
  \<open>std::string::substr(pos, n)\<close>: throws when \<open>pos\<close> is beyond the size, and
  otherwise copies up to \<open>n\<close> characters, fewer when the string ends first.
\<close>

definition substr :: "string \<Rightarrow> nat \<Rightarrow> nat \<Rightarrow> fault + string" where
  "substr s pos n =
     (if pos > length s then Inl Out_of_range else Inr (take n (drop pos s)))"

text \<open>
  \<open>ifa_name[i]\<close> on the name of an entry. \<open>getifaddrs\<close> hands the name out in a
  zero-filled array of \<open>IF_NAMESIZE + 1\<close> characters, so the terminating NUL and every
  character of the array after it read as NUL. The code reads the indices 0 and 2, both
  inside the array.
\<close>

definition c_str_at :: "string \<Rightarrow> nat \<Rightarrow> char" where
  "c_str_at s i = (if i < length s then s ! i else CHR 0x00)"

section \<open>Interface selection\<close>

text \<open>
  The \<open>for\<close> loop of \<open>get_wireless_interface_name\<close>. It returns the pointer \<open>ifa\<close>
  as the loop leaves it (the rest of the list from the selected entry on after
  \<open>break\<close>, the empty list for \<open>NULL\<close>) and \<open>iface_name\<close>.
\<close>

fun walk_ifaddrs :: "ifaddrs list \<Rightarrow> string \<Rightarrow> ifaddrs list \<times> string" where
  "walk_ifaddrs [] iface_name = ([], iface_name)"
| "walk_ifaddrs (ifa # ifa_next) iface_name =
     (case ifa_addr ifa of
        None \<Rightarrow> walk_ifaddrs ifa_next iface_name
      | Some family \<Rightarrow>
          if family = AF_INET \<or> family = AF_INET6 then
            (if c_str_at (ifa_name ifa) 0 = CHR ''w'' \<and> c_str_at (ifa_name ifa) 2 = CHR ''x''
             then (ifa # ifa_next, ifa_name ifa)
             else walk_ifaddrs ifa_next iface_name)
          else walk_ifaddrs ifa_next iface_name)"

definition get_wireless_interface_name ::
    "ifaddrs list option \<Rightarrow> string \<Rightarrow> int \<times> string" where
  "get_wireless_interface_name getifaddrs iface_name =
     (case getifaddrs of
        None \<Rightarrow> (- 1, iface_name)
      | Some ifaddr \<Rightarrow>
          (case walk_ifaddrs ifaddr iface_name of
             (ifa, iface_name') \<Rightarrow>
               if ifa = [] then (- 1, iface_name') else (0, iface_name')))"

section \<open>The SSID matcher\<close>

text \<open>
  \<open>phone_network\<close> is an output parameter: the function takes its old contents and
  returns the new ones beside the \<open>bool\<close>. The file is read through
  \<open>istreambuf_iterator\<close> with no \<open>try\<close> around it, so a failing read leaves the
  function as an exception.
\<close>

definition search_for_phone_ssid ::
    "filesystem \<Rightarrow> string \<Rightarrow> string \<Rightarrow> string \<Rightarrow> fault + (bool \<times> string)" where
  "search_for_phone_ssid files ssid_filename phone_artifact_ssid phone_network =
     (let phone_network = [] in
      case files ssid_filename of
        None \<Rightarrow> Inr (False, phone_network)
      | Some Read_error \<Rightarrow> Inl Ios_failure
      | Some (Contents file_contents) \<Rightarrow>
          (case string_find file_contents phone_artifact_ssid of
             Some found \<Rightarrow>
               (case substr file_contents found (length phone_artifact_ssid + 2) of
                  Inl e \<Rightarrow> Inl e
                | Inr s \<Rightarrow> Inr (True, s))
           | None \<Rightarrow> Inr (False, phone_network)))"

section \<open>The scan invoker\<close>

text \<open>
  \<open>ssid_network_scan\<close> returns \<open>void\<close> and drops the status of \<open>system\<close>: all that
  comes back is the file system the command leaves.
\<close>

definition ssid_network_scan ::
    "system_call \<Rightarrow> string \<Rightarrow> string \<Rightarrow> filesystem \<Rightarrow> filesystem" where
  "ssid_network_scan system ifname ssid_filename files =
     (let command_string = ''iwlist '' @ ifname @ '' scan | grep SSID > '' @ ssid_filename
      in snd (system command_string files))"

section \<open>The poll/report loop and main\<close>

text \<open>One pass through the body of the \<open>while\<close> loop: scan, match, publish.\<close>

definition cycle ::
    "system_call \<Rightarrow> string \<Rightarrow> string \<Rightarrow> string \<Rightarrow> poll_state \<Rightarrow> fault + poll_state" where
  "cycle system wifiname ssid_filename phone_artifact_ssid st =
     (let msg = [];
          files = ssid_network_scan system wifiname ssid_filename (fs st)
      in case search_for_phone_ssid files ssid_filename phone_artifact_ssid
                (phone_network_name st) of
           Inl e \<Rightarrow> Inl e
         | Inr (found, name) \<Rightarrow>
             Inr \<lparr>fs = files, phone_network_name = name,
                  published = published st @ [if found then name else msg]\<rparr>)"

fun poll_loop ::
    "system_call list \<Rightarrow> string \<Rightarrow> string \<Rightarrow> string \<Rightarrow> poll_state \<Rightarrow> fault + poll_state" where
  "poll_loop [] wifiname ssid_filename phone_artifact_ssid st = Inr st"
| "poll_loop (system # later) wifiname ssid_filename phone_artifact_ssid st =
     (case cycle system wifiname ssid_filename phone_artifact_ssid st of
        Inl e \<Rightarrow> Inl e
      | Inr st' \<Rightarrow> poll_loop later wifiname ssid_filename phone_artifact_ssid st')"

text \<open>
  \<open>main\<close> returns its exit code, the messages published in order and the file system
  it leaves; an exception that reaches it ends the process and is the \<open>fault\<close>.
\<close>

definition main ::
    "ifaddrs list option \<Rightarrow> filesystem \<Rightarrow> system_call list
       \<Rightarrow> fault + (int \<times> string list \<times> filesystem)" where
  "main getifaddrs files cycles =
     (let ssid_filename = ''ssid_list.txt'';
          phone_artifact_ssid = ''Pixel' hector'';
          phone_network_name = [];
          wifiname = []
      in case get_wireless_interface_name getifaddrs wifiname of
           (rc, wifiname) \<Rightarrow>
             if rc \<noteq> 0 then Inr (1, [], files)
             else
               (case poll_loop cycles wifiname ssid_filename phone_artifact_ssid
                       \<lparr>fs = files, phone_network_name = phone_network_name,
                        published = []\<rparr> of
                  Inl e \<Rightarrow> Inl e
                | Inr st \<Rightarrow> Inr (0, published st, fs st)))"

section \<open>Conditions the claims speak of\<close>

text \<open>
  The entries the claims call wireless, in the claims' words: an IPv4 or IPv6 address,
  and a name whose first character is \<open>w\<close> and whose third is \<open>x\<close>.
\<close>

definition spec_wireless_entry :: "ifaddrs \<Rightarrow> bool" where
  "spec_wireless_entry e \<longleftrightarrow>
     (ifa_addr e = Some AF_INET \<or> ifa_addr e = Some AF_INET6) \<and>
     (case ifa_name e of
        c0 # c1 # c2 # cs \<Rightarrow> c0 = CHR ''w'' \<and> c2 = CHR ''x''
      | _ \<Rightarrow> False)"

section \<open>Facts about the library operations\<close>

lemma string_find_None_iff: "string_find t p = None \<longleftrightarrow> \<not> sublist p t"
  by (induction t) (auto simp: sublist_Cons_right)

lemma string_find_SomeD:
  "string_find t p = Some i \<Longrightarrow>
     i \<le> length t \<and> prefix p (drop i t) \<and> (\<forall>k<i. \<not> prefix p (drop k t))"
proof (induction t arbitrary: i)
  case Nil
  then show ?case by (auto split: if_splits)
next
  case (Cons c cs)
  show ?case
  proof (cases "prefix p (c # cs)")
    case True
    with Cons.prems show ?thesis by simp
  next
    case False
    with Cons.prems obtain j where j: "string_find cs p = Some j" "i = Suc j"
      by auto
    from Cons.IH [OF j(1)] have
      ih: "j \<le> length cs" "prefix p (drop j cs)" "\<forall>k<j. \<not> prefix p (drop k cs)"
      by simp_all
    have "\<not> prefix p (drop k (c # cs))" if "k < i" for k
    proof (cases k)
      case 0
      with False show ?thesis by simp
    next
      case (Suc m)
      with that j(2) ih(3) show ?thesis by simp
    qed
    with ih j(2) show ?thesis by simp
  qed
qed

lemma first_offset_unique:
  assumes "prefix p (drop i t)" "\<forall>k<i. \<not> prefix p (drop k t)"
    and "prefix p (drop j t)" "\<forall>k<j. \<not> prefix p (drop k t)"
  shows "i = (j::nat)"
  using assms by (meson linorder_neqE_nat)

lemma string_find_first:
  assumes "prefix p (drop i t)" and "\<forall>k<i. \<not> prefix p (drop k t)"
  shows "string_find t p = Some i"
proof -
  from assms(1) have "sublist p t"
    by (metis append_take_drop_id prefix_def sublist_def)
  then obtain j where j: "string_find t p = Some j"
    using string_find_None_iff [of t p] by (cases "string_find t p") auto
  from string_find_SomeD [OF j] assms have "i = j"
    by (intro first_offset_unique [of p i t j]) simp_all
  with j show ?thesis by simp
qed

lemma search_for_phone_ssid_unopened:
  "files ssid_filename = None \<Longrightarrow>
     search_for_phone_ssid files ssid_filename p old = Inr (False, [])"
  by (simp add: search_for_phone_ssid_def)

lemma search_for_phone_ssid_absent:
  "files ssid_filename = Some (Contents scan) \<Longrightarrow> \<not> sublist p scan \<Longrightarrow>
     search_for_phone_ssid files ssid_filename p old = Inr (False, [])"
  using string_find_None_iff [of scan p] by (simp add: search_for_phone_ssid_def)

lemma search_for_phone_ssid_first:
  assumes "files ssid_filename = Some (Contents scan)"
    and "prefix p (drop i scan)" and "\<forall>k<i. \<not> prefix p (drop k scan)"
  shows "search_for_phone_ssid files ssid_filename p old =
           Inr (True, take (length p + 2) (drop i scan))"
proof -
  have f: "string_find scan p = Some i"
    using assms(2,3) by (rule string_find_first)
  from string_find_SomeD [OF f] have "i \<le> length scan" by simp
  with f assms(1) show ?thesis
    by (simp add: search_for_phone_ssid_def substr_def)
qed

lemma prefix_iff_take: "prefix p x \<longleftrightarrow> take (length p) x = p"
  by (metis append_eq_conv_conj prefix_def)

lemma prefix_drop_take:
  assumes "k + length p \<le> n"
  shows "prefix p (drop k (take n s)) \<longleftrightarrow> prefix p (drop k s)"
proof -
  have "take (length p) (drop k (take n s)) = take (length p) (drop k s)"
    using assms by (simp add: drop_take min_def)
  then show ?thesis by (simp add: prefix_iff_take)
qed

lemma search_for_phone_ssid_TrueD:
  assumes "search_for_phone_ssid files ssid_filename p old = Inr (True, m)"
  shows "\<exists>scan i. files ssid_filename = Some (Contents scan) \<and> i \<le> length scan \<and>
           prefix p (drop i scan) \<and> (\<forall>k<i. \<not> prefix p (drop k scan)) \<and>
           m = take (length p + 2) (drop i scan)"
proof -
  from assms obtain scan where scan: "files ssid_filename = Some (Contents scan)"
    by (auto simp: search_for_phone_ssid_def split: option.splits opened_file.splits)
  with assms obtain i where i: "string_find scan p = Some i"
    by (cases "string_find scan p") (auto simp: search_for_phone_ssid_def)
  from string_find_SomeD [OF i] have
    first: "i \<le> length scan" "prefix p (drop i scan)" "\<forall>k<i. \<not> prefix p (drop k scan)"
    by simp_all
  from assms scan i first(1) have "m = take (length p + 2) (drop i scan)"
    by (simp add: search_for_phone_ssid_def substr_def)
  with scan first show ?thesis by blast
qed

lemma search_for_phone_ssid_read_error:
  "files ssid_filename = Some Read_error \<Longrightarrow>
     search_for_phone_ssid files ssid_filename p old = Inl Ios_failure"
  by (simp add: search_for_phone_ssid_def)

lemma search_for_phone_ssid_returns:
  assumes "files ssid_filename \<noteq> Some Read_error"
  shows "\<exists>r. search_for_phone_ssid files ssid_filename p old = Inr r"
proof (cases "files ssid_filename")
  case None
  then show ?thesis by (auto simp: search_for_phone_ssid_def)
next
  case (Some opened)
  with assms obtain scan where scan: "files ssid_filename = Some (Contents scan)"
    by (cases opened) auto
  show ?thesis
  proof (cases "string_find scan p")
    case None
    with scan show ?thesis by (auto simp: search_for_phone_ssid_def)
  next
    case (Some i)
    from string_find_SomeD [OF Some] have "i \<le> length scan" by simp
    with Some scan show ?thesis
      by (auto simp: search_for_phone_ssid_def substr_def)
  qed
qed

lemma search_for_phone_ssid_False_empty:
  "search_for_phone_ssid files ssid_filename p old = Inr (False, m) \<Longrightarrow> m = []"
  by (auto simp: search_for_phone_ssid_def split: option.splits sum.splits opened_file.splits)

lemma cycle_publishes_one:
  assumes "ssid_network_scan system wifiname ssid_filename (fs st) ssid_filename \<noteq>
             Some Read_error"
  shows "\<exists>st'. cycle system wifiname ssid_filename p st = Inr st' \<and>
           length (published st') = Suc (length (published st))"
proof -
  obtain found name where
    "search_for_phone_ssid (ssid_network_scan system wifiname ssid_filename (fs st))
       ssid_filename p (phone_network_name st) = Inr (found, name)"
    using search_for_phone_ssid_returns
            [where files = "ssid_network_scan system wifiname ssid_filename (fs st)"
               and ssid_filename = ssid_filename, OF assms]
    by (metis surj_pair)
  then show ?thesis by (simp add: cycle_def)
qed

lemma poll_loop_publishes:
  assumes "\<forall>system\<in>set cycles. \<forall>files.
             ssid_network_scan system wifiname ssid_filename files ssid_filename \<noteq>
               Some Read_error"
  shows "\<exists>st'. poll_loop cycles wifiname ssid_filename p st = Inr st' \<and>
           length (published st') = length (published st) + length cycles"
  using assms
proof (induction cycles arbitrary: st)
  case Nil
  show ?case by simp
next
  case (Cons system later)
  from Cons.prems have
    "ssid_network_scan system wifiname ssid_filename (fs st) ssid_filename \<noteq> Some Read_error"
    by simp
  from cycle_publishes_one [OF this] obtain st1 where
    st1: "cycle system wifiname ssid_filename p st = Inr st1"
         "length (published st1) = Suc (length (published st))"
    by blast
  from Cons.prems have "\<forall>system\<in>set later. \<forall>files.
      ssid_network_scan system wifiname ssid_filename files ssid_filename \<noteq> Some Read_error"
    by simp
  from Cons.IH [OF this, of st1] obtain st' where
    "poll_loop later wifiname ssid_filename p st1 = Inr st'"
    "length (published st') = length (published st1) + length later"
    by blast
  with st1 show ?case by simp
qed

section \<open>Facts about the walk over the interfaces\<close>

lemma walk_ifaddrs_select:
  assumes "spec_wireless_entry e"
  shows "walk_ifaddrs (e # later) n = (e # later, ifa_name e)"
proof -
  from assms obtain c1 cs where "ifa_name e = CHR ''w'' # c1 # CHR ''x'' # cs"
    by (auto simp: spec_wireless_entry_def split: list.splits)
  moreover from assms have "ifa_addr e = Some AF_INET \<or> ifa_addr e = Some AF_INET6"
    by (simp add: spec_wireless_entry_def)
  ultimately show ?thesis
    by (auto simp: c_str_at_def)
qed

lemma name_test_fails:
  assumes "\<not> (case n of c0 # c1 # c2 # cs \<Rightarrow> c0 = CHR ''w'' \<and> c2 = CHR ''x'' | _ \<Rightarrow> False)"
  shows "\<not> (c_str_at n 0 = CHR ''w'' \<and> c_str_at n 2 = CHR ''x'')"
proof (cases n)
  case Nil
  then show ?thesis by (simp add: c_str_at_def)
next
  case (Cons c0 r0)
  note n0 = this
  show ?thesis
  proof (cases r0)
    case Nil
    with n0 show ?thesis by (simp add: c_str_at_def)
  next
    case (Cons c1 r1)
    note n1 = this
    show ?thesis
    proof (cases r1)
      case Nil
      with n0 n1 show ?thesis by (simp add: c_str_at_def)
    next
      case (Cons c2 r2)
      with n0 n1 assms show ?thesis by (simp add: c_str_at_def)
    qed
  qed
qed

lemma walk_ifaddrs_skip:
  assumes "\<not> spec_wireless_entry e"
  shows "walk_ifaddrs (e # later) n = walk_ifaddrs later n"
proof (cases "ifa_addr e = Some AF_INET \<or> ifa_addr e = Some AF_INET6")
  case False
  then show ?thesis by (cases "ifa_addr e") auto
next
  case True
  with assms have
    "\<not> (case ifa_name e of c0 # c1 # c2 # cs \<Rightarrow> c0 = CHR ''w'' \<and> c2 = CHR ''x''
         | _ \<Rightarrow> False)"
    by (simp add: spec_wireless_entry_def)
  then have "\<not> (c_str_at (ifa_name e) 0 = CHR ''w'' \<and> c_str_at (ifa_name e) 2 = CHR ''x'')"
    by (rule name_test_fails)
  with True show ?thesis by auto
qed

lemma walk_ifaddrs_first:
  assumes "spec_wireless_entry e"
    and "\<forall>x\<in>set before. \<not> spec_wireless_entry x"
  shows "walk_ifaddrs (before @ e # later) n = (e # later, ifa_name e)"
  using assms(2)
proof (induction before)
  case Nil
  from assms(1) show ?case by (simp only: append_Nil walk_ifaddrs_select)
next
  case (Cons x before)
  from Cons.prems have "\<not> spec_wireless_entry x"
    by simp
  then have "walk_ifaddrs ((x # before) @ e # later) n = walk_ifaddrs (before @ e # later) n"
    unfolding append_Cons by (rule walk_ifaddrs_skip)
  with Cons show ?case by simp
qed

lemma walk_ifaddrs_none:
  assumes "\<forall>x\<in>set l. \<not> spec_wireless_entry x"
  shows "walk_ifaddrs l n = ([], n)"
  using assms
proof (induction l)
  case Nil
  show ?case by simp
next
  case (Cons x l)
  from Cons.prems have "\<not> spec_wireless_entry x"
    by simp
  then have "walk_ifaddrs (x # l) n = walk_ifaddrs l n"
    by (rule walk_ifaddrs_skip)
  with Cons show ?case by simp
qed

section \<open>The claims\<close>

text \<open>
  C1. When the scan file holds a text in which the target prefix is followed by at least
  two more characters, \<open>search_for_phone_ssid\<close> returns true and its output string is
  the \<open>length p + 2\<close> characters of the text that start at the first occurrence of the
  prefix (the lowest offset \<open>i\<close> at which the prefix occurs), copied as they are.
\<close>

theorem prefix_with_two_chars_matched:
  assumes "files ssid_filename = Some (Contents scan)"
    and "scan = before @ p @ c1 # c2 # rest"
  shows "\<exists>i. prefix p (drop i scan) \<and> (\<forall>k<i. \<not> prefix p (drop k scan)) \<and>
           search_for_phone_ssid files ssid_filename p old =
             Inr (True, take (length p + 2) (drop i scan)) \<and>
           length (take (length p + 2) (drop i scan)) = length p + 2"
proof -
  have occ: "prefix p (drop (length before) scan)"
    using assms(2) by simp
  then have "sublist p scan"
    by (metis append_take_drop_id prefix_def sublist_def)
  then obtain i where i: "string_find scan p = Some i"
    using string_find_None_iff [of scan p] by (cases "string_find scan p") auto
  from string_find_SomeD [OF i] have
    first: "prefix p (drop i scan)" "\<forall>k<i. \<not> prefix p (drop k scan)"
    by simp_all
  from first(2) occ have "i \<le> length before"
    by (meson not_le)
  with assms(2) have len: "i + (length p + 2) \<le> length scan"
    by simp
  have "search_for_phone_ssid files ssid_filename p old =
          Inr (True, take (length p + 2) (drop i scan))"
    using assms(1) first by (rule search_for_phone_ssid_first)
  moreover from len have "length (take (length p + 2) (drop i scan)) = length p + 2"
    by simp
  ultimately show ?thesis using first by blast
qed

theorem prefix_with_two_chars_matched_witness:
  "search_for_phone_ssid [''ssid_list.txt'' \<mapsto> Contents ''SSID: PhoneArtifact17X''] ''ssid_list.txt''
     ''PhoneArtifact'' ''stale'' = Inr (True, ''PhoneArtifact17'')"
proof -
  have a: "[''ssid_list.txt'' \<mapsto> Contents ''SSID: PhoneArtifact17X''] ''ssid_list.txt'' =
             Some (Contents ''SSID: PhoneArtifact17X'')"
    by simp
  have b: "''SSID: PhoneArtifact17X'' = ''SSID: '' @ ''PhoneArtifact'' @ CHR ''1'' # CHR ''7'' # ''X''"
    by simp
  from prefix_with_two_chars_matched
         [where files = "[''ssid_list.txt'' \<mapsto> Contents ''SSID: PhoneArtifact17X'']"
            and old = "''stale''", OF a b]
  obtain i where
    i: "prefix ''PhoneArtifact'' (drop i ''SSID: PhoneArtifact17X'')"
       "\<forall>k<i. \<not> prefix ''PhoneArtifact'' (drop k ''SSID: PhoneArtifact17X'')"
       "search_for_phone_ssid [''ssid_list.txt'' \<mapsto> Contents ''SSID: PhoneArtifact17X'']
          ''ssid_list.txt'' ''PhoneArtifact'' ''stale'' =
        Inr (True, take (length ''PhoneArtifact'' + 2) (drop i ''SSID: PhoneArtifact17X''))"
    by blast
  have six: "prefix ''PhoneArtifact'' (drop 6 ''SSID: PhoneArtifact17X'')"
    by simp
  have "\<forall>k<6. \<not> prefix ''PhoneArtifact'' (drop k ''SSID: PhoneArtifact17X'')"
    by (simp add: less_Suc_eq eval_nat_numeral)
  with six i(1,2) have "i = 6"
    by (intro first_offset_unique [of "''PhoneArtifact''" i "''SSID: PhoneArtifact17X''" 6]) simp_all
  with i(3) show ?thesis by simp
qed

text \<open>
  C2, as stated: whenever \<open>search_for_phone_ssid\<close> returns true, its output has
  length exactly \<open>length p + 2\<close>. It does not when the text ends less than two
  characters after the first occurrence: on \<open>SSID: PhoneArtifact\<close> the output is the
  thirteen characters of the prefix.
\<close>

theorem matched_length_counterexample:
  "search_for_phone_ssid [''ssid_list.txt'' \<mapsto> Contents ''SSID: PhoneArtifact''] ''ssid_list.txt''
     ''PhoneArtifact'' [] = Inr (True, ''PhoneArtifact'') \<and>
   length ''PhoneArtifact'' \<noteq> length ''PhoneArtifact'' + 2"
  by (simp add: search_for_phone_ssid_def substr_def)

text \<open>
  C2, amended. Whenever \<open>search_for_phone_ssid\<close> returns true, its output starts
  with the prefix and its length is the smaller of \<open>length p + 2\<close> and the number of
  characters from the first occurrence of the prefix to the end of the text: at least
  \<open>length p\<close> and at most \<open>length p + 2\<close>.
\<close>

theorem matched_length_bounds:
  assumes "search_for_phone_ssid files ssid_filename p old = Inr (True, m)"
  shows "\<exists>scan i. files ssid_filename = Some (Contents scan) \<and>
           prefix p (drop i scan) \<and> (\<forall>k<i. \<not> prefix p (drop k scan)) \<and>
           length m = min (length p + 2) (length scan - i) \<and>
           prefix p m \<and> length p \<le> length m \<and> length m \<le> length p + 2"
proof -
  from search_for_phone_ssid_TrueD [OF assms] obtain scan i where
    s: "files ssid_filename = Some (Contents scan)" "i \<le> length scan"
       "prefix p (drop i scan)" "\<forall>k<i. \<not> prefix p (drop k scan)"
       "m = take (length p + 2) (drop i scan)"
    by blast
  from s(3) obtain tl where tl: "drop i scan = p @ tl"
    by (auto simp: prefix_def)
  from s(5) tl have m: "m = p @ take 2 tl" by simp
  have "length m = min (length p + 2) (length scan - i)"
    using s(5) by (simp add: min.commute)
  moreover from m have "prefix p m" "length p \<le> length m" "length m \<le> length p + 2"
    by simp_all
  ultimately show ?thesis using s by blast
qed

theorem matched_length_bounds_witness:
  "\<exists>scan i. [''ssid_list.txt'' \<mapsto> Contents ''SSID: PhoneArtifact7''] ''ssid_list.txt'' = Some (Contents scan) \<and>
     prefix ''PhoneArtifact'' (drop i scan) \<and>
     (\<forall>k<i. \<not> prefix ''PhoneArtifact'' (drop k scan)) \<and>
     length ''PhoneArtifact7'' = min (length ''PhoneArtifact'' + 2) (length scan - i) \<and>
     prefix ''PhoneArtifact'' ''PhoneArtifact7'' \<and>
     length ''PhoneArtifact'' \<le> length ''PhoneArtifact7'' \<and>
     length ''PhoneArtifact7'' \<le> length ''PhoneArtifact'' + 2"
proof -
  have "search_for_phone_ssid [''ssid_list.txt'' \<mapsto> Contents ''SSID: PhoneArtifact7'']
          ''ssid_list.txt'' ''PhoneArtifact'' ''old'' = Inr (True, ''PhoneArtifact7'')"
    by (simp add: search_for_phone_ssid_def substr_def)
  then show ?thesis by (rule matched_length_bounds)
qed

text \<open>
  C3. When the enumeration holds an entry with an IPv4 or IPv6 address whose name has
  \<open>w\<close> as first and \<open>x\<close> as third character, and no entry before it is such an
  entry, \<open>get_wireless_interface_name\<close> returns 0 and outputs the name of that entry.
  Entries without an address, with an address of another family, or with a name that
  is too short or spelt otherwise are passed over, and entries after the selected one
  play no part: the order of the enumeration decides.
\<close>

theorem first_wireless_interface_selected:
  assumes "getifaddrs = Some (before @ e # later)"
    and "spec_wireless_entry e"
    and "\<forall>x\<in>set before. \<not> spec_wireless_entry x"
  shows "get_wireless_interface_name getifaddrs old = (0, ifa_name e)"
  using assms(1) walk_ifaddrs_first [OF assms(2,3), of later old]
  by (simp add: get_wireless_interface_name_def)

theorem first_wireless_interface_selected_witness:
  "get_wireless_interface_name
     (Some [\<lparr>ifa_name = ''lo'', ifa_addr = Some AF_INET\<rparr>,
            \<lparr>ifa_name = ''w'', ifa_addr = Some AF_INET\<rparr>,
            \<lparr>ifa_name = ''wlx00c0ca'', ifa_addr = None\<rparr>,
            \<lparr>ifa_name = ''wlx00c0ca'', ifa_addr = Some AF_PACKET\<rparr>,
            \<lparr>ifa_name = ''wlan0'', ifa_addr = Some AF_INET\<rparr>,
            \<lparr>ifa_name = ''wlx00c0ca'', ifa_addr = Some AF_INET6\<rparr>,
            \<lparr>ifa_name = ''wlxffffff'', ifa_addr = Some AF_INET\<rparr>]) ''eth0'' =
   (0, ''wlx00c0ca'')"
proof -
  let ?before = "[\<lparr>ifa_name = ''lo'', ifa_addr = Some AF_INET\<rparr>,
            \<lparr>ifa_name = ''w'', ifa_addr = Some AF_INET\<rparr>,
            \<lparr>ifa_name = ''wlx00c0ca'', ifa_addr = None\<rparr>,
            \<lparr>ifa_name = ''wlx00c0ca'', ifa_addr = Some AF_PACKET\<rparr>,
            \<lparr>ifa_name = ''wlan0'', ifa_addr = Some AF_INET\<rparr>]"
  let ?e = "\<lparr>ifa_name = ''wlx00c0ca'', ifa_addr = Some AF_INET6\<rparr>"
  let ?later = "[\<lparr>ifa_name = ''wlxffffff'', ifa_addr = Some AF_INET\<rparr>]"
  have a: "Some (?before @ ?e # ?later) = Some (?before @ ?e # ?later)"
    by (rule refl)
  have b: "spec_wireless_entry ?e"
    by (simp add: spec_wireless_entry_def)
  have c: "\<forall>x\<in>set ?before. \<not> spec_wireless_entry x"
    by (simp add: spec_wireless_entry_def)
  from first_wireless_interface_selected [OF a b c, of "''eth0''"]
  show ?thesis by simp
qed

text \<open>
  C4. When no entry of the enumeration has both an IPv4 or IPv6 address and a name with
  \<open>w\<close> first and \<open>x\<close> third (an empty enumeration and a failed \<open>getifaddrs\<close>
  included), \<open>get_wireless_interface_name\<close> returns -1 and leaves its output string
  alone, and \<open>main\<close> exits with code 1 having published nothing and run no scan,
  however long \<open>ros::ok()\<close> would have stayed true.
\<close>

theorem no_wireless_interface_fails:
  assumes "\<forall>l. getifaddrs = Some l \<longrightarrow> (\<forall>x\<in>set l. \<not> spec_wireless_entry x)"
  shows "get_wireless_interface_name getifaddrs old = (- 1, old) \<and>
         main getifaddrs files cycles = Inr (1, [], files)"
proof -
  have sel: "get_wireless_interface_name getifaddrs n = (- 1, n)" for n
  proof (cases getifaddrs)
    case None
    then show ?thesis by (simp add: get_wireless_interface_name_def)
  next
    case (Some l)
    with assms have "walk_ifaddrs l n = ([], n)"
      by (intro walk_ifaddrs_none) simp
    with Some show ?thesis by (simp add: get_wireless_interface_name_def)
  qed
  from sel [of "[]"] have "main getifaddrs files cycles = Inr (1, [], files)"
    by (simp add: main_def)
  with sel [of old] show ?thesis by simp
qed

theorem no_wireless_interface_fails_witness:
  "get_wireless_interface_name
     (Some [\<lparr>ifa_name = ''w'', ifa_addr = Some AF_PACKET\<rparr>,
            \<lparr>ifa_name = ''w'', ifa_addr = Some AF_INET\<rparr>,
            \<lparr>ifa_name = ''eth0'', ifa_addr = Some AF_INET\<rparr>,
            \<lparr>ifa_name = ''wlan0'', ifa_addr = Some AF_INET6\<rparr>,
            \<lparr>ifa_name = ''wlx00c0ca'', ifa_addr = Some AF_PACKET\<rparr>]) ''old'' =
     (- 1, ''old'') \<and>
   main
     (Some [\<lparr>ifa_name = ''w'', ifa_addr = Some AF_PACKET\<rparr>,
            \<lparr>ifa_name = ''w'', ifa_addr = Some AF_INET\<rparr>,
            \<lparr>ifa_name = ''eth0'', ifa_addr = Some AF_INET\<rparr>,
            \<lparr>ifa_name = ''wlan0'', ifa_addr = Some AF_INET6\<rparr>,
            \<lparr>ifa_name = ''wlx00c0ca'', ifa_addr = Some AF_PACKET\<rparr>])
     Map.empty
     [\<lambda>command files. (0, files(''ssid_list.txt'' \<mapsto> Contents ''SSID: Pixel' hector42''))] =
     Inr (1, [], Map.empty)"
proof -
  let ?l = "[\<lparr>ifa_name = ''w'', ifa_addr = Some AF_PACKET\<rparr>,
            \<lparr>ifa_name = ''w'', ifa_addr = Some AF_INET\<rparr>,
            \<lparr>ifa_name = ''eth0'', ifa_addr = Some AF_INET\<rparr>,
            \<lparr>ifa_name = ''wlan0'', ifa_addr = Some AF_INET6\<rparr>,
            \<lparr>ifa_name = ''wlx00c0ca'', ifa_addr = Some AF_PACKET\<rparr>]"
  have "\<forall>l. Some ?l = Some l \<longrightarrow> (\<forall>x\<in>set l. \<not> spec_wireless_entry x)"
    by (simp add: spec_wireless_entry_def)
  then show ?thesis by (rule no_wireless_interface_fails)
qed

text \<open>
  C5, as stated: the Report of a cycle is the empty string when the scan failed. The
  code never looks at the outcome of the scan. Here the first scan writes a file that
  holds the target network, the second cannot be started (\<open>system\<close> returns -1 and
  leaves the file as it was), and the second Report is the network name again.
\<close>

theorem failed_scan_report_counterexample:
  "main (Some [\<lparr>ifa_name = ''wlx00c0ca'', ifa_addr = Some AF_INET\<rparr>]) Map.empty
     [\<lambda>command files. (0, files(''ssid_list.txt'' \<mapsto> Contents ''SSID: Pixel' hector42'')),
      \<lambda>command files. (- 1, files)] =
   Inr (0, [''Pixel' hector42'', ''Pixel' hector42''],
        [''ssid_list.txt'' \<mapsto> Contents ''SSID: Pixel' hector42'']) \<and>
   [''Pixel' hector42'', ''Pixel' hector42''] ! 1 \<noteq> []"
  by (simp add: main_def get_wireless_interface_name_def c_str_at_def cycle_def
        ssid_network_scan_def search_for_phone_ssid_def substr_def)

text \<open>
  C5, amended. Every cycle whose scan file, as the scan command left it, either cannot
  be opened or is read to its end publishes exactly one Report: the matched network name
  when \<open>search_for_phone_ssid\<close> succeeds on that file, and the empty string when it
  finds no match, which includes a scan file that cannot be opened. A loop of \<open>n\<close>
  cycles whose scans leave such a file comes back with \<open>n\<close> Reports. A failed scan is
  not noticed: its cycle reports what the matcher finds in the file the scan left.
\<close>

theorem one_report_per_cycle:
  "(ssid_network_scan system wifiname ssid_filename (fs st) ssid_filename \<noteq> Some Read_error
      \<longrightarrow>
    (\<exists>found name.
       search_for_phone_ssid (ssid_network_scan system wifiname ssid_filename (fs st))
         ssid_filename p (phone_network_name st) = Inr (found, name) \<and>
       cycle system wifiname ssid_filename p st =
         Inr \<lparr>fs = ssid_network_scan system wifiname ssid_filename (fs st),
              phone_network_name = name,
              published = published st @ [if found then name else []]\<rparr> \<and>
       (ssid_network_scan system wifiname ssid_filename (fs st) ssid_filename = None
          \<longrightarrow> \<not> found))) \<and>
   ((\<forall>system\<in>set cycles. \<forall>files.
       ssid_network_scan system wifiname ssid_filename files ssid_filename \<noteq> Some Read_error)
      \<longrightarrow>
    (\<exists>st'. poll_loop cycles wifiname ssid_filename p st = Inr st' \<and>
           length (published st') = length (published st) + length cycles))"
proof (intro conjI impI)
  let ?files = "ssid_network_scan system wifiname ssid_filename (fs st)"
  assume readable: "?files ssid_filename \<noteq> Some Read_error"
  obtain found name where
    r: "search_for_phone_ssid ?files ssid_filename p (phone_network_name st) =
          Inr (found, name)"
    using search_for_phone_ssid_returns
            [where files = "?files" and ssid_filename = ssid_filename, OF readable]
    by (metis surj_pair)
  then have c: "cycle system wifiname ssid_filename p st =
        Inr \<lparr>fs = ?files, phone_network_name = name,
             published = published st @ [if found then name else []]\<rparr>"
    by (simp add: cycle_def)
  have "\<not> found" if "?files ssid_filename = None"
    using r search_for_phone_ssid_unopened
            [where files = "?files" and ssid_filename = ssid_filename, OF that,
             of p "phone_network_name st"]
    by simp
  then have nf: "?files ssid_filename = None \<longrightarrow> \<not> found" ..
  show "\<exists>found name.
      search_for_phone_ssid ?files ssid_filename p (phone_network_name st) =
        Inr (found, name) \<and>
      cycle system wifiname ssid_filename p st =
        Inr \<lparr>fs = ?files, phone_network_name = name,
             published = published st @ [if found then name else []]\<rparr> \<and>
      (?files ssid_filename = None \<longrightarrow> \<not> found)"
  proof (intro exI conjI)
    show "search_for_phone_ssid ?files ssid_filename p (phone_network_name st) =
            Inr (found, name)"
      by (rule r)
    show "cycle system wifiname ssid_filename p st =
        Inr \<lparr>fs = ?files, phone_network_name = name,
             published = published st @ [if found then name else []]\<rparr>"
      by (rule c)
    show "?files ssid_filename = None \<longrightarrow> \<not> found"
      by (rule nf)
  qed
next
  assume "\<forall>system\<in>set cycles. \<forall>files.
       ssid_network_scan system wifiname ssid_filename files ssid_filename \<noteq> Some Read_error"
  then show "\<exists>st'. poll_loop cycles wifiname ssid_filename p st = Inr st' \<and>
           length (published st') = length (published st) + length cycles"
    by (rule poll_loop_publishes)
qed

theorem one_report_per_cycle_witness:
  "cycle (\<lambda>command files. (1, files)) ''wlx00c0ca'' ''ssid_list.txt'' ''Pixel' hector''
     \<lparr>fs = Map.empty, phone_network_name = ''Pixel' hector42'',
      published = [''Pixel' hector42'']\<rparr> =
   Inr \<lparr>fs = Map.empty, phone_network_name = [],
        published = [''Pixel' hector42'', []]\<rparr> \<and>
   (\<exists>st'. poll_loop
            [\<lambda>command files. (0, files(''ssid_list.txt'' \<mapsto> Contents ''SSID: HomeNet'')),
             \<lambda>command files. (1, files(''ssid_list.txt'' := None))]
            ''wlx00c0ca'' ''ssid_list.txt'' ''Pixel' hector''
            \<lparr>fs = Map.empty, phone_network_name = ''Pixel' hector42'',
             published = [''Pixel' hector42'']\<rparr> = Inr st' \<and>
          length (published st') = 3)"
proof -
  let ?sys = "\<lambda>(command::string) (files::filesystem). (1::int, files)"
  let ?cycles = "[\<lambda>(command::string) (files::filesystem).
                    (0::int, files(''ssid_list.txt'' \<mapsto> Contents ''SSID: HomeNet'')),
                  \<lambda>(command::string) (files::filesystem).
                    (1::int, files(''ssid_list.txt'' := None))]"
  let ?st = "\<lparr>fs = Map.empty, phone_network_name = ''Pixel' hector42'',
              published = [''Pixel' hector42'']\<rparr>"
  note t = one_report_per_cycle
         [where system = ?sys and wifiname = "''wlx00c0ca''"
            and ssid_filename = "''ssid_list.txt''" and p = "''Pixel' hector''"
            and st = ?st and cycles = ?cycles]
  have none: "ssid_network_scan ?sys ''wlx00c0ca'' ''ssid_list.txt'' (fs ?st) ''ssid_list.txt'' = None"
    by (simp add: ssid_network_scan_def)
  then have readable:
    "ssid_network_scan ?sys ''wlx00c0ca'' ''ssid_list.txt'' (fs ?st) ''ssid_list.txt'' \<noteq>
       Some Read_error"
    by simp
  have same: "ssid_network_scan ?sys ''wlx00c0ca'' ''ssid_list.txt'' (fs ?st) = Map.empty"
    by (simp add: ssid_network_scan_def)
  have all: "\<forall>system\<in>set ?cycles. \<forall>files.
       ssid_network_scan system ''wlx00c0ca'' ''ssid_list.txt'' files ''ssid_list.txt'' \<noteq>
         Some Read_error"
    by (simp add: ssid_network_scan_def)
  from t [THEN conjunct1, THEN mp, OF readable]
  obtain found name where
    a: "search_for_phone_ssid (ssid_network_scan ?sys ''wlx00c0ca'' ''ssid_list.txt'' (fs ?st))
          ''ssid_list.txt'' ''Pixel' hector'' (phone_network_name ?st) = Inr (found, name)"
    and b: "cycle ?sys ''wlx00c0ca'' ''ssid_list.txt'' ''Pixel' hector'' ?st =
        Inr \<lparr>fs = ssid_network_scan ?sys ''wlx00c0ca'' ''ssid_list.txt'' (fs ?st),
             phone_network_name = name,
             published = published ?st @ [if found then name else []]\<rparr>"
    and c: "ssid_network_scan ?sys ''wlx00c0ca'' ''ssid_list.txt'' (fs ?st) ''ssid_list.txt'' = None
         \<longrightarrow> \<not> found"
    by (elim conjE exE)
  from c none have nf: "\<not> found" by blast
  with a have "search_for_phone_ssid
          (ssid_network_scan ?sys ''wlx00c0ca'' ''ssid_list.txt'' (fs ?st))
          ''ssid_list.txt'' ''Pixel' hector'' (phone_network_name ?st) = Inr (False, name)"
    by simp
  then have "name = []"
    by (rule search_for_phone_ssid_False_empty)
  with b nf same have first:
    "cycle ?sys ''wlx00c0ca'' ''ssid_list.txt'' ''Pixel' hector'' ?st =
       Inr \<lparr>fs = Map.empty, phone_network_name = [],
            published = [''Pixel' hector42'', []]\<rparr>"
    by simp
  from t [THEN conjunct2, THEN mp, OF all]
  obtain st' where
    ret: "poll_loop ?cycles ''wlx00c0ca'' ''ssid_list.txt'' ''Pixel' hector'' ?st = Inr st'"
    and len: "length (published st') = length (published ?st) + length ?cycles"
    by (elim conjE exE)
  from len have "length (published st') = 3"
    by simp
  with ret have
    "poll_loop ?cycles ''wlx00c0ca'' ''ssid_list.txt'' ''Pixel' hector'' ?st = Inr st' \<and>
     length (published st') = 3"
    by (rule conjI)
  then have "\<exists>st'. poll_loop ?cycles ''wlx00c0ca'' ''ssid_list.txt'' ''Pixel' hector'' ?st =
        Inr st' \<and> length (published st') = 3"
    by (rule exI)
  with first show ?thesis by (rule conjI)
qed

text \<open>
  C6, as stated: \<open>ssid_network_scan\<close> fails when the scan process cannot be started,
  so that its caller can tell. It returns nothing: a call whose \<open>system\<close> returns
  -1 and one whose \<open>system\<close> returns 0 give the caller the same thing when they leave
  the same file.
\<close>

theorem scan_failure_not_reported_counterexample:
  "ssid_network_scan (\<lambda>command files. (- 1, files)) ''wlx00c0ca'' ''ssid_list.txt''
     [''ssid_list.txt'' \<mapsto> Contents ''SSID: HomeNet''] =
   ssid_network_scan (\<lambda>command files. (0, files(''ssid_list.txt'' \<mapsto> Contents ''SSID: HomeNet'')))
     ''wlx00c0ca'' ''ssid_list.txt'' [''ssid_list.txt'' \<mapsto> Contents ''SSID: HomeNet'']"
  by (simp add: ssid_network_scan_def)

text \<open>
  C6, amended. \<open>ssid_network_scan\<close> runs the command
  \<open>iwlist <ifname> scan | grep SSID > <ssid_filename>\<close> and reports no failure:
  whatever status \<open>system\<close> returns, the caller gets the file system the command
  leaves and nothing else.
\<close>

theorem scan_status_dropped:
  "ssid_network_scan (\<lambda>command files. (status command files, effect command files))
     ifname ssid_filename files =
   effect (''iwlist '' @ ifname @ '' scan | grep SSID > '' @ ssid_filename) files"
  by (simp add: ssid_network_scan_def)

text \<open>
  C7. When the text of the scan file does not contain the target prefix anywhere,
  \<open>search_for_phone_ssid\<close> returns false and its output string is empty, whatever the
  output string held before the call.
\<close>

theorem no_prefix_returns_false_and_empty:
  assumes "files ssid_filename = Some (Contents scan)" and "\<not> sublist p scan"
  shows "search_for_phone_ssid files ssid_filename p old = Inr (False, [])"
  using assms by (rule search_for_phone_ssid_absent)

theorem no_prefix_returns_false_and_empty_witness:
  "search_for_phone_ssid [''ssid_list.txt'' \<mapsto> Contents ''SSID: HomeNet''] ''ssid_list.txt''
     ''PhoneArtifact'' ''PhoneArtifact99'' = Inr (False, [])"
proof -
  have a: "[''ssid_list.txt'' \<mapsto> Contents ''SSID: HomeNet''] ''ssid_list.txt'' = Some (Contents ''SSID: HomeNet'')"
    by simp
  have b: "\<not> sublist ''PhoneArtifact'' ''SSID: HomeNet''"
    using string_find_None_iff [of "''SSID: HomeNet''" "''PhoneArtifact''"] by simp
  show ?thesis
    by (rule no_prefix_returns_false_and_empty
          [where files = "[''ssid_list.txt'' \<mapsto> Contents ''SSID: HomeNet'']", OF a b])
qed

text \<open>
  C8. Only the first occurrence of the prefix counts. With \<open>i\<close> the lowest offset at
  which the prefix occurs, the output is cut at \<open>i\<close>; and any text that agrees with
  this one on its first \<open>i + length p + 2\<close> characters gives the same result,
  whatever follows, later occurrences of the prefix included.
\<close>

theorem only_first_occurrence_used:
  assumes "files ssid_filename = Some (Contents scan)"
    and "prefix p (drop i scan)" and "\<forall>k<i. \<not> prefix p (drop k scan)"
  shows "search_for_phone_ssid files ssid_filename p old =
           Inr (True, take (length p + 2) (drop i scan)) \<and>
         (\<forall>files' scan' old'.
            files' ssid_filename = Some (Contents scan') \<and>
            take (i + length p + 2) scan' = take (i + length p + 2) scan \<longrightarrow>
            search_for_phone_ssid files' ssid_filename p old' =
              search_for_phone_ssid files ssid_filename p old)"
proof -
  let ?n = "i + length p + 2"
  have here: "search_for_phone_ssid files ssid_filename p old =
                Inr (True, take (length p + 2) (drop i scan))"
    using assms by (rule search_for_phone_ssid_first)
  have "search_for_phone_ssid files' ssid_filename p old' =
          search_for_phone_ssid files ssid_filename p old"
    if f': "files' ssid_filename = Some (Contents scan')" and eq: "take ?n scan' = take ?n scan"
    for files' scan' old'
  proof -
    have same: "prefix p (drop k scan') \<longleftrightarrow> prefix p (drop k scan)" if "k \<le> i" for k
    proof -
      from that have "k + length p \<le> ?n" by simp
      then have "prefix p (drop k scan') \<longleftrightarrow> prefix p (drop k (take ?n scan'))"
        and "prefix p (drop k scan) \<longleftrightarrow> prefix p (drop k (take ?n scan))"
        by (simp_all only: prefix_drop_take)
      with eq show ?thesis by simp
    qed
    from same [of i] assms(2) have a: "prefix p (drop i scan')" by simp
    from same assms(3) have b: "\<forall>k<i. \<not> prefix p (drop k scan')" by simp
    have "search_for_phone_ssid files' ssid_filename p old' =
            Inr (True, take (length p + 2) (drop i scan'))"
      using f' a b by (rule search_for_phone_ssid_first)
    moreover have "take (length p + 2) (drop i scan') = drop i (take ?n scan')"
      by (simp add: drop_take add.commute add.left_commute)
    moreover have "take (length p + 2) (drop i scan) = drop i (take ?n scan)"
      by (simp add: drop_take add.commute add.left_commute)
    ultimately show ?thesis using here eq by simp
  qed
  with here show ?thesis by blast
qed

theorem only_first_occurrence_used_witness:
  "search_for_phone_ssid
     [''ssid_list.txt'' \<mapsto> Contents ''SSID: PhoneArtifact17 SSID: PhoneArtifact42'']
     ''ssid_list.txt'' ''PhoneArtifact'' [] = Inr (True, ''PhoneArtifact17'') \<and>
   search_for_phone_ssid
     [''ssid_list.txt'' \<mapsto> Contents ''SSID: PhoneArtifact17 SSID: HomeNet'']
     ''ssid_list.txt'' ''PhoneArtifact'' [] = Inr (True, ''PhoneArtifact17'')"
proof -
  let ?scan = "''SSID: PhoneArtifact17 SSID: PhoneArtifact42''"
  let ?scan' = "''SSID: PhoneArtifact17 SSID: HomeNet''"
  have a: "[''ssid_list.txt'' \<mapsto> Contents ?scan] ''ssid_list.txt'' = Some (Contents ?scan)"
    by simp
  have b: "prefix ''PhoneArtifact'' (drop 6 ?scan)"
    by simp
  have c: "\<forall>k<6. \<not> prefix ''PhoneArtifact'' (drop k ?scan)"
    by (simp add: less_Suc_eq eval_nat_numeral)
  note t = only_first_occurrence_used
             [where files = "[''ssid_list.txt'' \<mapsto> Contents ?scan]" and old = "[]", OF a b c]
  from t have first: "search_for_phone_ssid [''ssid_list.txt'' \<mapsto> Contents ?scan] ''ssid_list.txt''
      ''PhoneArtifact'' [] = Inr (True, take (length ''PhoneArtifact'' + 2) (drop 6 ?scan))"
    by (rule conjunct1)
  from t have "[''ssid_list.txt'' \<mapsto> Contents ?scan'] ''ssid_list.txt'' = Some (Contents ?scan') \<and>
      take (6 + length ''PhoneArtifact'' + 2) ?scan' =
      take (6 + length ''PhoneArtifact'' + 2) ?scan \<longrightarrow>
      search_for_phone_ssid [''ssid_list.txt'' \<mapsto> Contents ?scan'] ''ssid_list.txt''
        ''PhoneArtifact'' [] =
      search_for_phone_ssid [''ssid_list.txt'' \<mapsto> Contents ?scan] ''ssid_list.txt''
        ''PhoneArtifact'' []"
    by blast
  then have "search_for_phone_ssid [''ssid_list.txt'' \<mapsto> Contents ?scan'] ''ssid_list.txt''
        ''PhoneArtifact'' [] =
      search_for_phone_ssid [''ssid_list.txt'' \<mapsto> Contents ?scan] ''ssid_list.txt''
        ''PhoneArtifact'' []"
    by simp
  with first show ?thesis by simp
qed

text \<open>
  C9, as stated: \<open>search_for_phone_ssid\<close> is a pure function with no input or
  output. It opens and reads the file named by its first argument, so two calls with
  the same three arguments differ when the file does.
\<close>

theorem matcher_reads_file_counterexample:
  "search_for_phone_ssid [''ssid_list.txt'' \<mapsto> Contents ''SSID: PhoneArtifact17''] ''ssid_list.txt''
     ''PhoneArtifact'' [] \<noteq>
   search_for_phone_ssid [''ssid_list.txt'' \<mapsto> Contents ''SSID: HomeNet''] ''ssid_list.txt''
     ''PhoneArtifact'' []"
  by (simp add: search_for_phone_ssid_def substr_def)

text \<open>
  C9, amended. \<open>search_for_phone_ssid\<close> does input: it opens and reads the scan file
  named by its first argument. What it returns is determined by what that file yields
  and by the prefix: two calls that find the same scan text and have the same prefix
  produce the same flag and the same matched network, whatever the file is called,
  whatever else the file system holds and whatever the output string held before.
\<close>

theorem matcher_determined_by_file_contents:
  assumes "files ssid_filename = files' ssid_filename'"
  shows "search_for_phone_ssid files ssid_filename p old =
           search_for_phone_ssid files' ssid_filename' p old'"
  using assms by (simp add: search_for_phone_ssid_def)

theorem matcher_determined_by_file_contents_witness:
  "search_for_phone_ssid [''ssid_list.txt'' \<mapsto> Contents ''SSID: PhoneArtifact17'']
     ''ssid_list.txt'' ''PhoneArtifact'' ''before'' =
   search_for_phone_ssid
     [''copy.txt'' \<mapsto> Contents ''SSID: PhoneArtifact17'', ''other'' \<mapsto> Contents ''x'']
     ''copy.txt'' ''PhoneArtifact'' []"
proof -
  have "[''ssid_list.txt'' \<mapsto> Contents ''SSID: PhoneArtifact17''] ''ssid_list.txt'' =
        [''copy.txt'' \<mapsto> Contents ''SSID: PhoneArtifact17'', ''other'' \<mapsto> Contents ''x'']
          ''copy.txt''"
    by simp
  then show ?thesis
    by (rule matcher_determined_by_file_contents
          [where files = "[''ssid_list.txt'' \<mapsto> Contents ''SSID: PhoneArtifact17'']"
             and ssid_filename = "''ssid_list.txt''"
             and files' = "[''copy.txt'' \<mapsto> Contents ''SSID: PhoneArtifact17'',
                            ''other'' \<mapsto> Contents ''x'']"
             and ssid_filename' = "''copy.txt''"])
qed

text \<open>
  C10. When the prefix occurs in the text with fewer than two characters after it (none
  at all included), \<open>search_for_phone_ssid\<close> still returns true, with an output that
  starts with the prefix; and when that occurrence is the first one, the output is the
  prefix followed by the zero or one characters that remain.
\<close>

theorem short_match_returned:
  assumes "files ssid_filename = Some (Contents scan)"
    and "scan = before @ p @ rest" and "length rest < 2"
  shows "\<exists>m. search_for_phone_ssid files ssid_filename p old = Inr (True, m) \<and>
           prefix p m \<and>
           ((\<forall>k<length before. \<not> prefix p (drop k scan)) \<longrightarrow> m = p @ rest)"
proof -
  have occ: "prefix p (drop (length before) scan)"
    using assms(2) by simp
  then have "sublist p scan"
    by (metis append_take_drop_id prefix_def sublist_def)
  then obtain i where i: "string_find scan p = Some i"
    using string_find_None_iff [of scan p] by (cases "string_find scan p") auto
  from string_find_SomeD [OF i] have
    first: "prefix p (drop i scan)" "\<forall>k<i. \<not> prefix p (drop k scan)"
    by simp_all
  let ?m = "take (length p + 2) (drop i scan)"
  have r: "search_for_phone_ssid files ssid_filename p old = Inr (True, ?m)"
    using assms(1) first by (rule search_for_phone_ssid_first)
  from first(1) have pm: "prefix p ?m"
    by (auto simp: prefix_def)
  have "?m = p @ rest" if "\<forall>k<length before. \<not> prefix p (drop k scan)"
  proof -
    from first occ that have "i = length before"
      by (intro first_offset_unique [of p i scan "length before"]) simp_all
    with assms(2,3) show ?thesis by simp
  qed
  with r pm show ?thesis by blast
qed

theorem short_match_returned_witness:
  "search_for_phone_ssid [''ssid_list.txt'' \<mapsto> Contents ''SSID: PhoneArtifact''] ''ssid_list.txt''
     ''PhoneArtifact'' ''old'' = Inr (True, ''PhoneArtifact'')"
proof -
  let ?scan = "''SSID: PhoneArtifact''"
  have a: "[''ssid_list.txt'' \<mapsto> Contents ?scan] ''ssid_list.txt'' = Some (Contents ?scan)"
    by simp
  have b: "?scan = ''SSID: '' @ ''PhoneArtifact'' @ []"
    by simp
  have c: "length ([]::string) < 2"
    by simp
  have d: "\<forall>k<length ''SSID: ''. \<not> prefix ''PhoneArtifact'' (drop k ?scan)"
    by (simp add: less_Suc_eq eval_nat_numeral)
  from short_match_returned
         [where files = "[''ssid_list.txt'' \<mapsto> Contents ?scan]" and old = "''old''", OF a b c] d
  show ?thesis by auto
qed

end
